theory Spec2Isabelle
  imports Main
begin

section \<open>Strings of the host language\<close>

text \<open>
  A string of the program is a list of code units; the model keeps the code units
  U+0000 .. U+00FF, one \<^typ>\<open>char\<close> each.  The regular-expression class \<^verbatim>\<open>\s\<close> and
  \<^verbatim>\<open>String.prototype.trim\<close> use the same set of white space and line terminators; in
  this range it is TAB, LF, VT, FF, CR, SPACE and NBSP.  The class \<^verbatim>\<open>.\<close> excludes the
  line terminators (LF and CR in this range), \<^verbatim>\<open>[A-Z]\<close> is the range U+0041 .. U+005A.
\<close>

definition is_whitespace :: "char \<Rightarrow> bool" where
  "is_whitespace c \<longleftrightarrow>
     c = CHR 0x09 \<or> c = CHR 0x0A \<or> c = CHR 0x0B \<or> c = CHR 0x0C \<or> c = CHR 0x0D \<or>
     c = CHR 0x20 \<or> c = CHR 0xA0"

definition is_line_terminator :: "char \<Rightarrow> bool" where
  "is_line_terminator c \<longleftrightarrow> c = CHR 0x0A \<or> c = CHR 0x0D"

definition is_upper :: "char \<Rightarrow> bool" where
  "is_upper c \<longleftrightarrow> (65::nat) \<le> of_char c \<and> of_char c \<le> (90::nat)"

text \<open>
  \<^verbatim>\<open>s.split(sep)\<close> for a separator that always consumes exactly one code unit
  (\<^verbatim>\<open>/\s/\<close>, \<^verbatim>\<open>" "\<close>, \<^verbatim>\<open>"/"\<close>, \<^verbatim>\<open>"\n"\<close>): one piece more than there are separators,
  empty pieces kept, and \<^verbatim>\<open>"".split(sep)\<close> is \<^verbatim>\<open>[""]\<close>.  The result is never empty
  (\<open>split_on_not_Nil\<close> below), so the first branch of the \<open>case\<close> is never taken and
  \<^verbatim>\<open>parts[0]\<close> is the head of the result.
\<close>

fun split_on :: "(char \<Rightarrow> bool) \<Rightarrow> string \<Rightarrow> string list" where
  "split_on sep [] = [[]]"
| "split_on sep (c # cs) =
     (case split_on sep cs of
        [] \<Rightarrow> [[c]]
      | p # ps \<Rightarrow> if sep c then [] # p # ps else (c # p) # ps)"

definition split_char :: "char \<Rightarrow> string \<Rightarrow> string list" where
  "split_char d s = split_on (\<lambda>c. c = d) s"

text \<open>\<^verbatim>\<open>xs.join(' ')\<close>.\<close>

fun join_space :: "string list \<Rightarrow> string" where
  "join_space [] = []"
| "join_space [x] = x"
| "join_space (x # y # ys) = x @ CHR '' '' # join_space (y # ys)"

text \<open>\<^verbatim>\<open>s.trim()\<close>.\<close>

definition trim :: "string \<Rightarrow> string" where
  "trim s = rev (dropWhile is_whitespace (rev (dropWhile is_whitespace s)))"

section \<open>The pattern \<^verbatim>\<open>(.+)/([A-Z]+)\<close>\<close>

text \<open>
  \<^verbatim>\<open>new RegExp('(.+)/([A-Z]+)','g').exec(token)\<close>.  The expression object is created anew
  for every token, so its \<^verbatim>\<open>lastIndex\<close> is 0 and the search starts at the beginning of
  the token.  \<open>dot_plus acc s\<close> is the backtracking matcher once the first group has
  consumed \<open>acc\<close>: the group takes one more code unit, prefers to go on (it is greedy),
  and otherwise needs a slash and an upper-case letter right after it; the second group
  is greedy and nothing follows it.  \<open>exec\<close> tries the start positions from the left.
\<close>

fun dot_plus :: "string \<Rightarrow> string \<Rightarrow> (string \<times> string) option" where
  "dot_plus acc [] = None"
| "dot_plus acc (c # cs) =
     (if is_line_terminator c then None
      else (case dot_plus (acc @ [c]) cs of
              Some r \<Rightarrow> Some r
            | None \<Rightarrow>
                (case cs of
                   [] \<Rightarrow> None
                 | s # ds \<Rightarrow>
                     if s = CHR ''/'' \<and> takeWhile is_upper ds \<noteq> []
                     then Some (acc @ [c], takeWhile is_upper ds) else None)))"

fun exec :: "string \<Rightarrow> (string \<times> string) option" where
  "exec [] = None"
| "exec (c # cs) =
     (case dot_plus [] (c # cs) of Some r \<Rightarrow> Some r | None \<Rightarrow> exec cs)"

section \<open>The entity map\<close>

text \<open>
  \<^verbatim>\<open>Map<string, string[]>\<close> keeps its keys in insertion order, and \<^verbatim>\<open>set\<close> on a key
  that is present replaces the value where it stands.  The key that \<^verbatim>\<open>parse\<close> writes
  is the variable \<^verbatim>\<open>prevEntity\<close>, a string or \<^verbatim>\<open>undefined\<close>: keys are
  \<^typ>\<open>string option\<close>, with \<^term>\<open>None\<close> for \<^verbatim>\<open>undefined\<close>.
\<close>

type_synonym entity_map = "(string option \<times> string list) list"

fun map_get :: "entity_map \<Rightarrow> string option \<Rightarrow> string list option" where
  "map_get [] k = None"
| "map_get ((k', v) # m) k = (if k' = k then Some v else map_get m k)"

fun map_set :: "entity_map \<Rightarrow> string option \<Rightarrow> string list \<Rightarrow> entity_map" where
  "map_set [] k v = [(k, v)]"
| "map_set ((k', v') # m) k v =
     (if k' = k then (k, v) # m else (k', v') # map_set m k v)"

text \<open>\<^verbatim>\<open>entities.get(k).push(x)\<close>, the key being present.\<close>

fun map_push :: "entity_map \<Rightarrow> string option \<Rightarrow> string \<Rightarrow> entity_map" where
  "map_push [] k x = []"
| "map_push ((k', v) # m) k x =
     (if k' = k then (k', v @ [x]) # m else (k', v) # map_push m k x)"

section \<open>\<^verbatim>\<open>NER.parse\<close>\<close>

text \<open>A tagged token \<^verbatim>\<open>{w: parts[1], t: parts[2]}\<close> is the pair \<open>(w, t)\<close>.\<close>

definition tagged_tokens :: "string \<Rightarrow> (string \<times> string) list" where
  "tagged_tokens parsed = List.map_filter exec (split_on is_whitespace parsed)"

record parse_state =
  entities :: entity_map
  prevEntity :: "string option"
  entityBuffer :: "string list"

text \<open>The block under the comment \<^verbatim>\<open>There was! We save the entity\<close>, the same in both
  branches of the loop.\<close>

definition save_entity :: "parse_state \<Rightarrow> parse_state" where
  "save_entity s =
     (let e = (if map_get (entities s) (prevEntity s) = None
               then map_set (entities s) (prevEntity s) [] else entities s)
      in s\<lparr>entities := map_push e (prevEntity s) (join_space (entityBuffer s)),
           entityBuffer := []\<rparr>)"

text \<open>One round of the \<^verbatim>\<open>for\<close> loop.\<close>

fun parse_step :: "parse_state \<Rightarrow> string \<times> string \<Rightarrow> parse_state" where
  "parse_step s (w, t) =
     (let s' =
        (if t \<noteq> ''O'' then
           (if Some t \<noteq> prevEntity s then
              (let s1 = (if length (entityBuffer s) > 0 then save_entity s else s)
               in s1\<lparr>entityBuffer := entityBuffer s1 @ [w]\<rparr>)
            else s\<lparr>entityBuffer := entityBuffer s @ [w]\<rparr>)
         else (if length (entityBuffer s) > 0 then save_entity s else s))
      in s'\<lparr>prevEntity := Some t\<rparr>)"

definition parse_init :: parse_state where
  "parse_init = \<lparr>entities = [], prevEntity = None, entityBuffer = []\<rparr>"

definition parse :: "string \<Rightarrow> entity_map" where
  "parse parsed =
     (let s = foldl parse_step parse_init (tagged_tokens parsed)
      in if length (entityBuffer s) \<noteq> 0
         then map_set (entities s) (prevEntity s) (entityBuffer s)
         else entities s)"

section \<open>\<^verbatim>\<open>NER.parse\<close> with its expression objects\<close>

text \<open>
  An expression object created with the flag \<^verbatim>\<open>g\<close> has state: \<^verbatim>\<open>exec\<close> starts its
  search at the object's \<^verbatim>\<open>lastIndex\<close>, and leaves there the end of the match, or 0 when
  nothing matches.  The store holds the \<^verbatim>\<open>lastIndex\<close> of every expression object
  created so far; an object is its position in the store, and \<^verbatim>\<open>new RegExp\<close> appends an
  object whose \<^verbatim>\<open>lastIndex\<close> is 0.  (\<open>exec_g\<close> is only ever given an object of the
  store.)
\<close>

type_synonym regexps = "nat list"

definition new_RegExp :: "regexps \<Rightarrow> nat \<times> regexps" where
  "new_RegExp h = (length h, h @ [0])"

text \<open>
  The search from the position \<open>i\<close>, through the rest \<open>s\<close> of the string from there:
  the groups of the leftmost match and the position where the match ends.
\<close>

fun search :: "nat \<Rightarrow> string \<Rightarrow> ((string \<times> string) \<times> nat) option" where
  "search i [] = None"
| "search i (c # cs) =
     (case dot_plus [] (c # cs) of
        Some (w, t) \<Rightarrow> Some ((w, t), i + length w + 1 + length t)
      | None \<Rightarrow> search (Suc i) cs)"

definition exec_g :: "regexps \<Rightarrow> nat \<Rightarrow> string \<Rightarrow> (string \<times> string) option \<times> regexps" where
  "exec_g h r s =
     (let lastIndex = h ! r in
      if lastIndex > length s then (None, h[r := 0])
      else (case search lastIndex (drop lastIndex s) of
              None \<Rightarrow> (None, h[r := 0])
            | Some (parts, e) \<Rightarrow> (Some parts, h[r := e])))"

text \<open>
  \<^verbatim>\<open>_.map(tokenized, function(token) {...})\<close>: the callback creates an expression object
  and calls its \<^verbatim>\<open>exec\<close> on the token.
\<close>

fun map_tokens :: "regexps \<Rightarrow> string list \<Rightarrow> (string \<times> string) option list \<times> regexps" where
  "map_tokens h [] = ([], h)"
| "map_tokens h (token # rest) =
     (let (r, h1) = new_RegExp h;
          (parts, h2) = exec_g h1 r token;
          (ps, h3) = map_tokens h2 rest
      in (parts # ps, h3))"

text \<open>\<^verbatim>\<open>_.compact\<close>, on a list whose falsy elements are the \<^verbatim>\<open>null\<close>s.\<close>

definition compact :: "'a option list \<Rightarrow> 'a list" where
  "compact xs = map the (filter (\<lambda>x. x \<noteq> None) xs)"

text \<open>
  \<^verbatim>\<open>parse\<close> run in a store of expression objects: the result and the store it leaves.
  The first object it creates is \<^verbatim>\<open>splitRegex\<close>, which it never uses.  The Map and the
  buffers are created in the call and only the Map is handed out, so they stay values.
\<close>

definition parse_st :: "regexps \<Rightarrow> string \<Rightarrow> entity_map \<times> regexps" where
  "parse_st h parsed =
     (let tokenized = split_on is_whitespace parsed;
          (splitRegex, h1) = new_RegExp h;
          (mapped, h2) = map_tokens h1 tokenized;
          tagged = compact mapped;
          s = foldl parse_step parse_init tagged
      in (if length (entityBuffer s) \<noteq> 0
          then map_set (entities s) (prevEntity s) (entityBuffer s)
          else entities s, h2))"

section \<open>\<^verbatim>\<open>NER.getTokenCount\<close>\<close>

text \<open>
  The callback of \<^verbatim>\<open>textTokens.map\<close> in tagged mode: the text before the first slash
  of the token, with the worker's escapes for quotes and brackets undone.
\<close>

definition untag :: "string \<Rightarrow> string" where
  "untag val =
     (let parts = split_char CHR ''/'' val; p0 = hd parts in
      if p0 = ''``'' then [CHR 0x27]
      else if p0 = [CHR 0x27, CHR 0x27] then [CHR 0x27]
      else if p0 = ''-LRB-'' then ''(''
      else if p0 = ''-RRB-'' then '')''
      else if p0 = ''-LSB-'' then ''[''
      else if p0 = ''-RSB-'' then '']''
      else if p0 = ''-LCB-'' then ''{''
      else if p0 = ''-RCB-'' then ''}''
      else p0)"

text \<open>
  The tokenizer of raw text, \<^verbatim>\<open>natural.TreebankWordTokenizer\<close>, belongs to a library:
  it is the parameter \<open>tokenize\<close>.  The optional argument \<^verbatim>\<open>isTagged\<close> is
  \<^term>\<open>False\<close> when the caller leaves it out.
\<close>

definition getTokenCount :: "(string \<Rightarrow> string list) \<Rightarrow> string \<Rightarrow> bool \<Rightarrow> nat" where
  "getTokenCount tokenize text isTagged =
     (let textTokens =
            (if isTagged then map untag (split_char CHR '' '' text) else tokenize text);
          filtered =
            filter (\<lambda>v. let v' = (if isTagged then trim (hd (split_char CHR ''/'' v)) else v)
                        in length v' > 1) textTokens
      in length filtered)"

section \<open>The request sequencer: \<^verbatim>\<open>NER.getEntities\<close> and \<^verbatim>\<open>NER.extract\<close>\<close>

text \<open>
  A request is named by a number: it stands for the promise that \<^verbatim>\<open>getEntities\<close>
  returns, that is for its \<^verbatim>\<open>resolve\<close> function, and for the \<^verbatim>\<open>uuid.v4()\<close> drawn
  when the request has to wait (a fresh identifier, here the next number).

  A listener on \<^verbatim>\<open>childProcess.stdout\<close> is the closure that \<^verbatim>\<open>extract\<close> creates, with
  the variables it captures.
\<close>

record listener =
  owner :: nat
  numTokens :: int
  result :: "entity_map list"

text \<open>
  The fields \<open>isBusy\<close> and \<open>queue\<close> are those of the class; \<open>waiters\<close> holds the
  listeners of \<^verbatim>\<open>finishedEmitter\<close> (event name and captured text), in the order they were
  added; \<open>stdoutListeners\<close> those of the \<^verbatim>\<open>data\<close> event.  Three logs record what the
  program does to the outside: \<open>written\<close> every \<^verbatim>\<open>stdin.write\<close> (with the request whose
  \<^verbatim>\<open>extract\<close> wrote it), \<open>resolved\<close> every call of a \<^verbatim>\<open>resolve\<close> function with the
  contents of the array passed at the time of the call, \<open>removals\<close> the number of calls
  of \<^verbatim>\<open>stdout.removeAllListeners\<close>.
\<close>

record ner =
  isBusy :: bool
  queue :: "nat list"
  waiters :: "(nat \<times> string) list"
  stdoutListeners :: "listener list"
  written :: "(nat \<times> string) list"
  resolved :: "(nat \<times> entity_map list) list"
  removals :: nat
  nextId :: nat

definition ner_init :: ner where
  "ner_init = \<lparr>isBusy = False, queue = [], waiters = [], stdoutListeners = [],
                written = [], resolved = [], removals = 0, nextId = 0\<rparr>"

text \<open>\<^verbatim>\<open>extract(text, resolve)\<close>, named \<open>extract_ner\<close> here (the short name is a command of
  the prover): the listener is registered, then the text is written.\<close>

definition extract_ner :: "(string \<Rightarrow> string list) \<Rightarrow> ner \<Rightarrow> string \<Rightarrow> nat \<Rightarrow> ner" where
  "extract_ner tokenize s text h =
     s\<lparr>stdoutListeners := stdoutListeners s @
          [\<lparr>owner = h, numTokens = int (getTokenCount tokenize text False), result = []\<rparr>],
       written := written s @ [(h, trim text @ [CHR 0x0A])]\<rparr>"

text \<open>
  \<^verbatim>\<open>finishedEmitter.emit(nextEvent)\<close> calls, one after the other, the listeners that were
  registered under that name: each sets the flag and calls \<^verbatim>\<open>extract\<close>.
\<close>

definition emit :: "(string \<Rightarrow> string list) \<Rightarrow> ner \<Rightarrow> nat \<Rightarrow> ner" where
  "emit tokenize s nextEvent =
     foldl (\<lambda>s' (requestId, text).
              if requestId = nextEvent then extract_ner tokenize (s'\<lparr>isBusy := True\<rparr>) text requestId
              else s')
       s (waiters s)"

text \<open>
  The callback of \<^verbatim>\<open>sentences.forEach\<close>, run by the listener \<open>l\<close> on one sentence.  It
  changes the variables the listener captured and the state of the object.
\<close>

definition on_sentence ::
  "(string \<Rightarrow> string list) \<Rightarrow> listener \<times> ner \<Rightarrow> string \<Rightarrow> listener \<times> ner" where
  "on_sentence tokenize ls sentence =
     (let l = fst ls; s = snd ls;
          l1 = l\<lparr>numTokens := numTokens l - int (getTokenCount tokenize sentence True)\<rparr>;
          l2 = l1\<lparr>result := result l1 @ [parse sentence]\<rparr>
      in if numTokens l2 \<le> 0 then
           (let s1 = s\<lparr>stdoutListeners := [], removals := Suc (removals s)\<rparr>;
                s2 = s1\<lparr>isBusy := False\<rparr>;
                s3 = s2\<lparr>resolved := resolved s2 @ [(owner l2, result l2)]\<rparr>
            in if length (queue s3) \<noteq> 0
               then (l2, emit tokenize (s3\<lparr>queue := tl (queue s3)\<rparr>) (hd (queue s3)))
               else (l2, s3))
         else (l2, s))"

text \<open>\<^verbatim>\<open>data.trim().split("\n")\<close>.\<close>

definition sentences_of :: "string \<Rightarrow> string list" where
  "sentences_of data = split_char (CHR 0x0A) (trim data)"

text \<open>
  One call of a \<^verbatim>\<open>data\<close> listener: the closure registered at position \<open>i\<close> when the
  event was emitted, \<open>r0\<close> being the number of removals at that time.  The variables the
  closure captured stay with it when it returns: unless the listeners were removed in the
  meantime, it is still registered at its position, with the new values.
\<close>

definition run_listener ::
  "(string \<Rightarrow> string list) \<Rightarrow> string \<Rightarrow> nat \<Rightarrow> ner \<Rightarrow> nat \<times> listener \<Rightarrow> ner" where
  "run_listener tokenize data r0 s il =
     (let ls = foldl (on_sentence tokenize) (snd il, s) (sentences_of data)
      in if removals (snd ls) = r0
         then (snd ls)\<lparr>stdoutListeners := (stdoutListeners (snd ls))[fst il := fst ls]\<rparr>
         else snd ls)"

text \<open>
  The worker emits a chunk: the \<^verbatim>\<open>data\<close> event calls the listeners that are registered
  when it is emitted, in the order of their registration, also those that one of them
  removes meanwhile.
\<close>

definition on_data :: "(string \<Rightarrow> string list) \<Rightarrow> ner \<Rightarrow> string \<Rightarrow> ner" where
  "on_data tokenize s data =
     foldl (run_listener tokenize data (removals s)) s (enumerate 0 (stdoutListeners s))"

text \<open>\<^verbatim>\<open>getEntities(text)\<close>: the state after the call, and the request it returns.\<close>

definition getEntities :: "(string \<Rightarrow> string list) \<Rightarrow> ner \<Rightarrow> string \<Rightarrow> nat \<times> ner" where
  "getEntities tokenize s text =
     (let requestId = nextId s; s0 = s\<lparr>nextId := Suc (nextId s)\<rparr>
      in if isBusy s0 then
           (requestId, s0\<lparr>queue := queue s0 @ [requestId],
                          waiters := waiters s0 @ [(requestId, text)]\<rparr>)
         else (requestId, extract_ner tokenize (s0\<lparr>isBusy := True\<rparr>) text requestId))"

text \<open>What happens to the object: a caller submits a text, or the worker emits a chunk.\<close>

datatype event = Submit string | Data string

fun step :: "(string \<Rightarrow> string list) \<Rightarrow> ner \<Rightarrow> event \<Rightarrow> ner" where
  "step tokenize s (Submit text) = snd (getEntities tokenize s text)"
| "step tokenize s (Data data) = on_data tokenize s data"

definition run :: "(string \<Rightarrow> string list) \<Rightarrow> event list \<Rightarrow> ner" where
  "run tokenize evs = foldl (step tokenize) ner_init evs"

text \<open>The requests written to the worker whose \<^verbatim>\<open>resolve\<close> has not been called.\<close>

definition in_flight :: "ner \<Rightarrow> nat list" where
  "in_flight s = filter (\<lambda>h. h \<notin> fst ` set (resolved s)) (map fst (written s))"

text \<open>
  A tokenizer to run the sequencer with: the pieces between white space.  On a text of
  words and single spaces it is what a word tokenizer returns.
\<close>

definition words :: "string \<Rightarrow> string list" where
  "words text = filter (\<lambda>w. w \<noteq> []) (split_on is_whitespace text)"

section \<open>Notions the claims are stated with\<close>

text \<open>
  The line without the tokens that the pattern does not match: the tokens that match,
  joined by single spaces.
\<close>

definition without_unmatched :: "string \<Rightarrow> string" where
  "without_unmatched line =
     join_space (filter (\<lambda>token. exec token \<noteq> None) (split_on is_whitespace line))"

text \<open>
  The tagged-mode count as the specification words it.  A tagged output line is a
  sequence of tokens \<^verbatim>\<open>surface/TAG\<close> separated by white space, the surface and the tag of
  a token being the two groups of the pattern, as in \<^verbatim>\<open>parse\<close>; the escapes of quotes
  and brackets are undone on the surface; the count is the number of tokens whose
  unescaped surface is longer than one character.
\<close>

definition unescaped :: "string \<Rightarrow> string" where
  "unescaped w =
     (if w = ''``'' then [CHR 0x27]
      else if w = [CHR 0x27, CHR 0x27] then [CHR 0x27]
      else if w = ''-LRB-'' then ''(''
      else if w = ''-RRB-'' then '')''
      else if w = ''-LSB-'' then ''[''
      else if w = ''-RSB-'' then '']''
      else if w = ''-LCB-'' then ''{''
      else if w = ''-RCB-'' then ''}''
      else w)"

definition claimed_tagged_count :: "string \<Rightarrow> nat" where
  "claimed_tagged_count line =
     length (filter (\<lambda>(w, t). 1 < length (unescaped w)) (tagged_tokens line))"

text \<open>The sum of the tagged-mode counts of some output lines.\<close>

definition tagged_total :: "(string \<Rightarrow> string list) \<Rightarrow> string list \<Rightarrow> int" where
  "tagged_total tokenize ls = (\<Sum>l\<leftarrow>ls. int (getTokenCount tokenize l True))"

text \<open>
  The budget \<open>n\<close> is not reached by the lines \<open>ls\<close>: the counts of the first \<open>k\<close>
  lines total less than \<open>n\<close>, for every \<open>k\<close> from 1 to the number of lines.  In the
  second form the last line is left out of the condition.
\<close>

definition not_reached :: "(string \<Rightarrow> string list) \<Rightarrow> int \<Rightarrow> string list \<Rightarrow> bool" where
  "not_reached tokenize n ls \<longleftrightarrow>
     (\<forall>k \<in> {1..length ls}. tagged_total tokenize (take k ls) < n)"

definition not_reached_before :: "(string \<Rightarrow> string list) \<Rightarrow> int \<Rightarrow> string list \<Rightarrow> bool" where
  "not_reached_before tokenize n ls \<longleftrightarrow>
     (\<forall>k \<in> {1..<length ls}. tagged_total tokenize (take k ls) < n)"

text \<open>The output lines that a sequence of events carries, in order.\<close>

fun lines_of :: "event list \<Rightarrow> string list" where
  "lines_of [] = []"
| "lines_of (Submit text # evs) = lines_of evs"
| "lines_of (Data data # evs) = sentences_of data @ lines_of evs"

text \<open>
  The waiting requests are in order: each event name was registered once, every name in
  the queue was registered, and all of them were drawn before \<open>nextId\<close>.
\<close>

definition queue_wf :: "ner \<Rightarrow> bool" where
  "queue_wf s \<longleftrightarrow>
     distinct (map fst (waiters s)) \<and> set (queue s) \<subseteq> fst ` set (waiters s) \<and>
     (\<forall>i \<in> fst ` set (waiters s). i < nextId s)"

text \<open>
  What holds of the listeners in every state the object reaches: at most one is
  registered on the worker's output, and only while the flag is set.
\<close>

definition listener_inv :: "ner \<Rightarrow> bool" where
  "listener_inv s \<longleftrightarrow>
     length (stdoutListeners s) \<le> 1 \<and> (stdoutListeners s \<noteq> [] \<longrightarrow> isBusy s) \<and> queue_wf s"

text \<open>
  What a chunk can do to the waiting requests: take some off the queue, nothing else.
\<close>

definition queue_shrinks :: "ner \<Rightarrow> ner \<Rightarrow> bool" where
  "queue_shrinks s s' \<longleftrightarrow>
     waiters s' = waiters s \<and> nextId s' = nextId s \<and> set (queue s') \<subseteq> set (queue s)"

text \<open>
  A chunk of two output lines, as the worker emits for the text \<^verbatim>\<open>Hello world. A\<close>: it
  splits the text into two sentences.  The tokenizer counts two tokens longer than one
  character in the text, and the first line alone carries both.
\<close>

definition two_line_chunk :: string where
  "two_line_chunk = ''Hello/O world/O ./O'' @ CHR 0x0A # ''A/O'' @ [CHR 0x0A]"

section \<open>Invariants of the scan\<close>

text \<open>
  What holds of the loop's variables after every round, for the tagged tokens \<open>toks\<close>
  of the line: each key written so far is the tag of a token outside \<^verbatim>\<open>O\<close>, and
  while the buffer is open \<^verbatim>\<open>prevEntity\<close> is such a tag.
\<close>

definition tag_inv :: "(string \<times> string) list \<Rightarrow> parse_state \<Rightarrow> bool" where
  "tag_inv toks s \<longleftrightarrow>
     (\<forall>k \<in> fst ` set (entities s). \<exists>w t. k = Some t \<and> t \<noteq> ''O'' \<and> (w, t) \<in> set toks) \<and>
     (entityBuffer s \<noteq> [] \<longrightarrow>
        (\<exists>w t. prevEntity s = Some t \<and> t \<noteq> ''O'' \<and> (w, t) \<in> set toks))"

section \<open>The keys of the entity map\<close>

lemma keys_map_set: "fst ` set (map_set m k v) = insert k (fst ` set m)"
  by (induction m k v rule: map_set.induct) auto

lemma keys_map_push: "fst ` set (map_push m k x) = fst ` set m"
  by (induction m k x rule: map_push.induct) auto

lemma map_get_Some_key: "map_get m k = Some v \<Longrightarrow> k \<in> fst ` set m"
  by (induction m) (auto split: if_splits)

lemma keys_save_entity:
  "fst ` set (entities (save_entity s)) = insert (prevEntity s) (fst ` set (entities s))"
proof (cases "map_get (entities s) (prevEntity s)")
  case None
  then show ?thesis by (simp add: save_entity_def keys_map_push keys_map_set)
next
  case (Some v)
  then have "prevEntity s \<in> fst ` set (entities s)" by (rule map_get_Some_key)
  with Some show ?thesis by (auto simp add: save_entity_def keys_map_push)
qed

lemma save_entity_fields [simp]:
  "entityBuffer (save_entity s) = []" "prevEntity (save_entity s) = prevEntity s"
  by (simp_all add: save_entity_def Let_def)

lemma tag_inv_save:
  assumes "tag_inv toks s" "entityBuffer s \<noteq> []"
  shows "\<forall>k \<in> fst ` set (entities (save_entity s)).
           \<exists>w t. k = Some t \<and> t \<noteq> ''O'' \<and> (w, t) \<in> set toks"
  using assms unfolding tag_inv_def keys_save_entity by blast

lemma tag_inv_step:
  assumes "tag_inv toks s" "x \<in> set toks"
  shows "tag_inv toks (parse_step s x)"
proof -
  obtain w t where x: "x = (w, t)" by (cases x)
  show ?thesis
  proof (cases "entityBuffer s = []")
    case True
    with assms x show ?thesis
      by (auto simp: tag_inv_def Let_def)
  next
    case False
    note sv = tag_inv_save [OF assms(1) False]
    from assms(1)
    have ks: "\<forall>k \<in> fst ` set (entities s). \<exists>w t. k = Some t \<and> t \<noteq> ''O'' \<and> (w, t) \<in> set toks"
      by (simp add: tag_inv_def)
    show ?thesis
    proof (cases "t = ''O''")
      case True
      with False x sv show ?thesis by (simp add: tag_inv_def)
    next
      case tO: False
      show ?thesis
      proof (cases "Some t = prevEntity s")
        case True
        then have "prevEntity s = Some t" by simp
        with tO False x ks assms(2) show ?thesis by (auto simp add: tag_inv_def)
      next
        case neq: False
        with tO False x sv assms(2) show ?thesis by (auto simp add: tag_inv_def Let_def)
      qed
    qed
  qed
qed

lemma tag_inv_foldl:
  "tag_inv toks s \<Longrightarrow> set xs \<subseteq> set toks \<Longrightarrow> tag_inv toks (foldl parse_step s xs)"
  by (induction xs arbitrary: s) (auto simp: tag_inv_step)

section \<open>Every key is written once\<close>

lemma map_fst_map_set:
  "map fst (map_set m k v) = (if k \<in> fst ` set m then map fst m else map fst m @ [k])"
  by (induction m k v rule: map_set.induct) auto

lemma map_fst_map_push: "map fst (map_push m k x) = map fst m"
  by (induction m k x rule: map_push.induct) auto

lemma distinct_map_set: "distinct (map fst m) \<Longrightarrow> distinct (map fst (map_set m k v))"
  by (auto simp: map_fst_map_set)

lemma distinct_save_entity:
  "distinct (map fst (entities s)) \<Longrightarrow> distinct (map fst (entities (save_entity s)))"
  by (simp add: save_entity_def Let_def map_fst_map_push distinct_map_set)

lemma distinct_parse_step:
  assumes "distinct (map fst (entities s))"
  shows "distinct (map fst (entities (parse_step s x)))"
proof -
  obtain w t where x: "x = (w, t)" by (cases x)
  from assms distinct_save_entity [OF assms] show ?thesis
    by (simp add: x Let_def)
qed

lemma distinct_foldl_parse_step:
  "distinct (map fst (entities s)) \<Longrightarrow> distinct (map fst (entities (foldl parse_step s xs)))"
  by (induction xs arbitrary: s) (auto simp: distinct_parse_step)

lemma distinct_keys_parse: "distinct (map fst (parse line))"
proof -
  have "distinct (map fst (entities (foldl parse_step parse_init (tagged_tokens line))))"
    by (rule distinct_foldl_parse_step) (simp add: parse_init_def)
  then show ?thesis by (simp add: parse_def Let_def distinct_map_set)
qed

section \<open>The expression objects of \<^verbatim>\<open>parse\<close>\<close>

lemma search_exec: "map_option fst (search i s) = exec s"
  by (induction s arbitrary: i) (auto split: option.splits)

lemma exec_g_fresh: "fst (exec_g (h @ [0]) (length h) s) = exec s"
proof -
  have "fst (exec_g (h @ [0]) (length h) s) = map_option fst (search 0 s)"
    by (simp add: exec_g_def split: option.splits)
  then show ?thesis by (simp add: search_exec)
qed

lemma length_exec_g [simp]: "length (snd (exec_g h r s)) = length h"
  by (simp add: exec_g_def Let_def split: option.splits)

lemma take_exec_g: "n \<le> r \<Longrightarrow> take n (snd (exec_g h r s)) = take n h"
  by (simp add: exec_g_def Let_def split: option.splits)

lemma map_tokens_fst: "fst (map_tokens h toks) = map exec toks"
proof (induction toks arbitrary: h)
  case Nil
  then show ?case by simp
next
  case (Cons token rest)
  obtain parts h2 where e: "exec_g (h @ [0]) (length h) token = (parts, h2)"
    by (cases "exec_g (h @ [0]) (length h) token")
  with exec_g_fresh [of h token] have p: "parts = exec token" by simp
  obtain ps h3 where m: "map_tokens h2 rest = (ps, h3)" by (cases "map_tokens h2 rest")
  with Cons.IH [of h2] have "ps = map exec rest" by simp
  with e p m show ?case by (simp add: new_RegExp_def)
qed

lemma map_tokens_frame:
  "n \<le> length h \<Longrightarrow> take n (snd (map_tokens h toks)) = take n h"
proof (induction toks arbitrary: h)
  case Nil
  then show ?case by simp
next
  case (Cons token rest)
  obtain parts h2 where e: "exec_g (h @ [0]) (length h) token = (parts, h2)"
    by (cases "exec_g (h @ [0]) (length h) token")
  then have h2: "h2 = snd (exec_g (h @ [0]) (length h) token)" by simp
  have len: "n \<le> length h2" using Cons.prems by (simp add: h2)
  have t2: "take n h2 = take n h"
    unfolding h2 using Cons.prems by (simp add: take_exec_g)
  obtain ps h3 where m: "map_tokens h2 rest = (ps, h3)" by (cases "map_tokens h2 rest")
  with Cons.IH [OF len] have "take n h3 = take n h2" by simp
  with e m t2 show ?case by (simp add: new_RegExp_def)
qed

lemma compact_map: "compact (map f xs) = List.map_filter f xs"
  by (induction xs) (auto simp: compact_def List.map_filter_def)

lemma parse_st_fst: "fst (parse_st h line) = parse line"
proof -
  obtain mapped h2 where m: "map_tokens (h @ [0]) (split_on is_whitespace line) = (mapped, h2)"
    by (cases "map_tokens (h @ [0]) (split_on is_whitespace line)")
  with map_tokens_fst [of "h @ [0]" "split_on is_whitespace line"]
  have "mapped = map exec (split_on is_whitespace line)" by simp
  then have "compact mapped = tagged_tokens line"
    by (simp add: compact_map tagged_tokens_def)
  with m show ?thesis
    by (simp add: parse_st_def parse_def new_RegExp_def Let_def)
qed

lemma parse_st_frame: "take (length h) (snd (parse_st h line)) = h"
proof -
  obtain mapped h2 where m: "map_tokens (h @ [0]) (split_on is_whitespace line) = (mapped, h2)"
    by (cases "map_tokens (h @ [0]) (split_on is_whitespace line)")
  from map_tokens_frame [of "length h" "h @ [0]" "split_on is_whitespace line"] m
  have "take (length h) h2 = h" by simp
  with m show ?thesis by (simp add: parse_st_def new_RegExp_def Let_def)
qed

text \<open>
  The state of an expression object shows: a second \<^verbatim>\<open>exec\<close> of the same object on the
  same token starts after the first match and finds nothing.
\<close>

lemma exec_g_keeps_state:
  "fst (exec_g [0] 0 ''a/O'') = Some (''a'', ''O'') \<and>
   fst (exec_g (snd (exec_g [0] 0 ''a/O'')) 0 ''a/O'') = None"
  by code_simp

section \<open>Splitting and joining\<close>

lemma split_on_not_Nil [simp]: "split_on sep s \<noteq> []"
  by (induction s) (auto split: list.splits)

lemma split_on_pieces_all: "\<forall>t \<in> set (split_on sep s). \<forall>c \<in> set t. \<not> sep c"
  by (induction s) (auto split: list.splits)

lemma split_on_pieces: "t \<in> set (split_on sep s) \<Longrightarrow> \<forall>c \<in> set t. \<not> sep c"
  using split_on_pieces_all by blast

lemma split_on_clean: "\<forall>c \<in> set t. \<not> sep c \<Longrightarrow> split_on sep t = [t]"
  by (induction t) auto

lemma split_on_append:
  "\<forall>c \<in> set t. \<not> sep c \<Longrightarrow> sep d \<Longrightarrow> split_on sep (t @ d # rest) = t # split_on sep rest"
proof (induction t)
  case Nil
  then show ?case by (cases "split_on sep rest") auto
next
  case (Cons a t)
  then show ?case by simp
qed

lemma split_on_join_space:
  assumes "sep CHR '' ''" "ts \<noteq> []" "\<forall>t \<in> set ts. \<forall>c \<in> set t. \<not> sep c"
  shows "split_on sep (join_space ts) = ts"
  using assms(2,3)
proof (induction ts rule: join_space.induct)
  case 1
  then show ?case by simp
next
  case (2 x)
  then show ?case by (simp add: split_on_clean)
next
  case (3 x y ys)
  then show ?case using assms(1) by (simp add: split_on_append)
qed

section \<open>Tokens that the pattern does not match\<close>

lemma map_filter_matching:
  "List.map_filter f (filter (\<lambda>x. f x \<noteq> None) xs) = List.map_filter f xs"
  by (induction xs) (auto simp: List.map_filter_def)

lemma tagged_tokens_without_unmatched:
  "tagged_tokens (without_unmatched line) = tagged_tokens line"
proof -
  let ?F = "filter (\<lambda>token. exec token \<noteq> None) (split_on is_whitespace line)"
  show ?thesis
  proof (cases "?F = []")
    case True
    have "tagged_tokens (without_unmatched line) = []"
      unfolding without_unmatched_def True by (simp add: tagged_tokens_def List.map_filter_def)
    moreover have "tagged_tokens line = List.map_filter exec ?F"
      unfolding tagged_tokens_def by (rule map_filter_matching [symmetric])
    then have "tagged_tokens line = []"
      unfolding True by (simp add: List.map_filter_def)
    ultimately show ?thesis by simp
  next
    case False
    have clean: "\<forall>t \<in> set ?F. \<forall>c \<in> set t. \<not> is_whitespace c"
      using split_on_pieces by fastforce
    have sp: "is_whitespace CHR '' ''" by (simp add: is_whitespace_def)
    have "split_on is_whitespace (join_space ?F) = ?F"
      by (rule split_on_join_space [OF sp False clean])
    then have "tagged_tokens (without_unmatched line) = List.map_filter exec ?F"
      by (simp only: tagged_tokens_def without_unmatched_def)
    also have "\<dots> = tagged_tokens line"
      unfolding tagged_tokens_def by (rule map_filter_matching)
    finally show ?thesis .
  qed
qed

section \<open>The listener while the budget lasts, and when it is reached\<close>

lemma tagged_total_simps [simp]:
  "tagged_total tok [] = 0"
  "tagged_total tok (x # xs) = int (getTokenCount tok x True) + tagged_total tok xs"
  "tagged_total tok (xs @ ys) = tagged_total tok xs + tagged_total tok ys"
  by (simp_all add: tagged_total_def)

lemma not_reached_Cons:
  assumes "not_reached tok n (x # xs)"
  shows "int (getTokenCount tok x True) < n"
    and "not_reached tok (n - int (getTokenCount tok x True)) xs"
proof -
  from assms have "tagged_total tok (take 1 (x # xs)) < n"
    unfolding not_reached_def by (auto simp del: take_Suc_Cons)
  then show "int (getTokenCount tok x True) < n" by simp
  show "not_reached tok (n - int (getTokenCount tok x True)) xs"
    unfolding not_reached_def
  proof
    fix k assume "k \<in> {1..length xs}"
    then have "Suc k \<in> {1..length (x # xs)}" by simp
    with assms have "tagged_total tok (take (Suc k) (x # xs)) < n"
      unfolding not_reached_def by blast
    then show "tagged_total tok (take k xs) < n - int (getTokenCount tok x True)" by simp
  qed
qed

lemma on_sentence_continue:
  assumes "int (getTokenCount tok x True) < numTokens l"
  shows "on_sentence tok (l, s) x =
    (l\<lparr>numTokens := numTokens l - int (getTokenCount tok x True), result := result l @ [parse x]\<rparr>, s)"
  using assms by (simp add: on_sentence_def Let_def)

lemma on_sentence_complete:
  assumes "numTokens l \<le> int (getTokenCount tok x True)"
  shows "on_sentence tok (l, s) x =
    (l\<lparr>numTokens := numTokens l - int (getTokenCount tok x True), result := result l @ [parse x]\<rparr>,
     let done = s\<lparr>stdoutListeners := [], removals := Suc (removals s), isBusy := False,
                  resolved := resolved s @ [(owner l, result l @ [parse x])]\<rparr>
     in if queue s = [] then done
        else emit tok (done\<lparr>queue := tl (queue s)\<rparr>) (hd (queue s)))"
  using assms by (simp add: on_sentence_def Let_def)

lemma foldl_on_sentence_continue:
  "not_reached tok (numTokens l) ls \<Longrightarrow>
   foldl (on_sentence tok) (l, s) ls =
     (l\<lparr>numTokens := numTokens l - tagged_total tok ls, result := result l @ map parse ls\<rparr>, s)"
proof (induction ls arbitrary: l)
  case Nil
  then show ?case by simp
next
  case (Cons x xs)
  note nr = not_reached_Cons [OF Cons.prems]
  let ?l1 = "l\<lparr>numTokens := numTokens l - int (getTokenCount tok x True), result := result l @ [parse x]\<rparr>"
  have "foldl (on_sentence tok) (l, s) (x # xs) = foldl (on_sentence tok) (?l1, s) xs"
    by (simp add: on_sentence_continue [OF nr(1)])
  also have "\<dots> = (?l1\<lparr>numTokens := numTokens ?l1 - tagged_total tok xs, result := result ?l1 @ map parse xs\<rparr>, s)"
    by (rule Cons.IH) (use nr(2) in simp)
  finally show ?case by (simp add: algebra_simps)
qed


lemma not_reached_append:
  assumes "not_reached tok n (A @ B)"
  shows "not_reached tok n A" and "not_reached tok (n - tagged_total tok A) B"
proof -
  show "not_reached tok n A"
    unfolding not_reached_def
  proof
    fix k assume k: "k \<in> {1..length A}"
    then have "k \<in> {1..length (A @ B)}" by simp
    with assms have "tagged_total tok (take k (A @ B)) < n" unfolding not_reached_def by blast
    with k show "tagged_total tok (take k A) < n" by simp
  qed
  show "not_reached tok (n - tagged_total tok A) B"
    unfolding not_reached_def
  proof
    fix k assume k: "k \<in> {1..length B}"
    then have "length A + k \<in> {1..length (A @ B)}" by simp
    with assms have "tagged_total tok (take (length A + k) (A @ B)) < n"
      unfolding not_reached_def by blast
    then show "tagged_total tok (take k B) < n - tagged_total tok A" by simp
  qed
qed

lemma not_reached_before_append:
  assumes "not_reached_before tok n (A @ B)" "B \<noteq> []"
  shows "not_reached tok n A" and "not_reached_before tok (n - tagged_total tok A) B"
proof -
  show "not_reached tok n A"
    unfolding not_reached_def
  proof
    fix k assume k: "k \<in> {1..length A}"
    with assms(2) have "k \<in> {1..<length (A @ B)}" by (cases B) auto
    with assms have "tagged_total tok (take k (A @ B)) < n" unfolding not_reached_before_def by blast
    with k show "tagged_total tok (take k A) < n" by simp
  qed
  show "not_reached_before tok (n - tagged_total tok A) B"
    unfolding not_reached_before_def
  proof
    fix k assume k: "k \<in> {1..<length B}"
    then have "length A + k \<in> {1..<length (A @ B)}" by simp
    with assms have "tagged_total tok (take (length A + k) (A @ B)) < n"
      unfolding not_reached_before_def by blast
    then show "tagged_total tok (take k B) < n - tagged_total tok A" by simp
  qed
qed

lemma not_reached_iff:
  "not_reached tok n A \<longleftrightarrow> not_reached_before tok n A \<and> (A \<noteq> [] \<longrightarrow> tagged_total tok A < n)"
proof -
  have "{1..length A} = (if A = [] then {} else insert (length A) {1..<length A})"
    by (cases A) auto
  then show ?thesis
    unfolding not_reached_def not_reached_before_def by auto
qed

lemma sentences_of_not_Nil [simp]: "sentences_of data \<noteq> []"
  by (simp add: sentences_of_def split_char_def)

lemma lines_of_append [simp]: "lines_of (a @ b) = lines_of a @ lines_of b"
  by (induction a rule: lines_of.induct) auto

lemma emit_fold_absent:
  "q \<notin> fst ` set ws \<Longrightarrow>
   foldl (\<lambda>s' (requestId, text).
            if requestId = q then extract_ner tok (s'\<lparr>isBusy := True\<rparr>) text requestId else s')
     s0 ws = s0"
  by (induction ws arbitrary: s0) auto

lemma emit_fold_present:
  "distinct (map fst ws) \<Longrightarrow> (q, t) \<in> set ws \<Longrightarrow>
   foldl (\<lambda>s' (requestId, text).
            if requestId = q then extract_ner tok (s'\<lparr>isBusy := True\<rparr>) text requestId else s')
     s0 ws = extract_ner tok (s0\<lparr>isBusy := True\<rparr>) t q"
proof (induction ws arbitrary: s0)
  case Nil
  then show ?case by simp
next
  case (Cons p ws)
  obtain i t' where p: "p = (i, t')" by (cases p)
  show ?case
  proof (cases "i = q")
    case True
    with Cons.prems p have "t' = t" "q \<notin> fst ` set ws" by force+
    with True p show ?thesis by (simp add: emit_fold_absent)
  next
    case False
    with Cons p show ?thesis by auto
  qed
qed

lemma emit_dispatches:
  "distinct (map fst (waiters s)) \<Longrightarrow> (q, t) \<in> set (waiters s) \<Longrightarrow>
   emit tok s q = extract_ner tok (s\<lparr>isBusy := True\<rparr>) t q"
  unfolding emit_def by (rule emit_fold_present)

lemma removals_emit_fold:
  "removals (foldl (\<lambda>s' (requestId, text).
            if requestId = q then extract_ner tok (s'\<lparr>isBusy := True\<rparr>) text requestId else s')
     s0 ws) = removals s0"
  by (induction ws arbitrary: s0) (auto simp: extract_ner_def)

lemma removals_emit [simp]: "removals (emit tok s q) = removals s"
  unfolding emit_def by (rule removals_emit_fold)

lemma on_data_single:
  assumes lis: "stdoutListeners s = [l]"
    and nr: "not_reached_before tok (numTokens l) (sentences_of data)"
  shows "on_data tok s data =
     (if tagged_total tok (sentences_of data) < numTokens l
      then s\<lparr>stdoutListeners :=
               [l\<lparr>numTokens := numTokens l - tagged_total tok (sentences_of data),
                  result := result l @ map parse (sentences_of data)\<rparr>]\<rparr>
      else (let done = s\<lparr>stdoutListeners := [], removals := Suc (removals s), isBusy := False,
                         resolved := resolved s @
                           [(owner l, result l @ map parse (sentences_of data))]\<rparr>
            in if queue s = [] then done
               else emit tok (done\<lparr>queue := tl (queue s)\<rparr>) (hd (queue s))))"
proof -
  let ?Ls = "sentences_of data"
  let ?pre = "butlast ?Ls" and ?x = "last ?Ls"
  have Ls: "?Ls = ?pre @ [?x]" by simp
  have od: "on_data tok s data = run_listener tok data (removals s) s (0, l)"
    by (simp add: on_data_def lis)
  from nr have "not_reached_before tok (numTokens l) (?pre @ [?x])" by simp
  then have pre: "not_reached tok (numTokens l) ?pre"
    by (rule not_reached_before_append) simp
  let ?lp = "l\<lparr>numTokens := numTokens l - tagged_total tok ?pre, result := result l @ map parse ?pre\<rparr>"
  have "foldl (on_sentence tok) (l, s) ?Ls = foldl (on_sentence tok) (l, s) (?pre @ [?x])"
    by simp
  also have "\<dots> = on_sentence tok (?lp, s) ?x"
    by (simp add: foldl_on_sentence_continue [OF pre] del: append_butlast_last_id)
  finally have fold: "foldl (on_sentence tok) (l, s) ?Ls = on_sentence tok (?lp, s) ?x" .
  have tot: "tagged_total tok ?Ls = tagged_total tok ?pre + int (getTokenCount tok ?x True)"
    by (subst Ls) (simp del: append_butlast_last_id)
  have mp: "map parse ?Ls = map parse ?pre @ [parse ?x]"
    by (subst Ls) (simp del: append_butlast_last_id)
  show ?thesis
  proof (cases "tagged_total tok ?Ls < numTokens l")
    case True
    then have "int (getTokenCount tok ?x True) < numTokens ?lp" by (simp add: tot)
    from on_sentence_continue [OF this, of s] True show ?thesis
      by (simp add: od run_listener_def fold Let_def lis tot mp algebra_simps)
  next
    case False
    then have "numTokens ?lp \<le> int (getTokenCount tok ?x True)" by (simp add: tot)
    from on_sentence_complete [OF this, of s] False show ?thesis
      by (simp add: od run_listener_def fold Let_def mp)
  qed
qed


lemma queue_wf_submit:
  assumes "queue_wf s" "isBusy s"
  shows "queue_wf (step tok s (Submit text))"
  using assms unfolding queue_wf_def
  by (fastforce simp: getEntities_def Let_def)

lemma events_before_completion:
  assumes "isBusy s" "stdoutListeners s = [l]" "queue_wf s"
    and "not_reached tok (numTokens l) (lines_of evs)"
  shows "isBusy (foldl (step tok) s evs) \<and>
         stdoutListeners (foldl (step tok) s evs) =
           [l\<lparr>numTokens := numTokens l - tagged_total tok (lines_of evs),
              result := result l @ map parse (lines_of evs)\<rparr>] \<and>
         queue_wf (foldl (step tok) s evs) \<and>
         resolved (foldl (step tok) s evs) = resolved s \<and>
         written (foldl (step tok) s evs) = written s \<and>
         removals (foldl (step tok) s evs) = removals s"
  using assms
proof (induction evs arbitrary: s l)
  case Nil
  then show ?case by simp
next
  case (Cons ev evs)
  show ?case
  proof (cases ev)
    case (Submit req)
    let ?s1 = "step tok s ev"
    have s1: "isBusy ?s1" "stdoutListeners ?s1 = [l]" "resolved ?s1 = resolved s"
      "written ?s1 = written s" "removals ?s1 = removals s"
      using Cons.prems(1,2) Submit by (simp_all add: getEntities_def Let_def)
    have wf: "queue_wf ?s1"
      using queue_wf_submit [OF Cons.prems(3,1)] Submit by simp
    from Cons.prems(4) Submit have nr: "not_reached tok (numTokens l) (lines_of evs)" by simp
    from Cons.IH [OF s1(1,2) wf nr] s1 Submit show ?thesis by simp
  next
    case (Data data)
    let ?A = "sentences_of data"
    let ?l1 = "l\<lparr>numTokens := numTokens l - tagged_total tok ?A, result := result l @ map parse ?A\<rparr>"
    let ?s1 = "step tok s ev"
    from Cons.prems(4) Data have nrAB: "not_reached tok (numTokens l) (?A @ lines_of evs)" by simp
    note nr = not_reached_append [OF nrAB]
    from nr(1) have nrb: "not_reached_before tok (numTokens l) ?A" and lt: "tagged_total tok ?A < numTokens l"
      by (simp_all add: not_reached_iff)
    have od: "on_data tok s data = s\<lparr>stdoutListeners := [?l1]\<rparr>"
      using on_data_single [OF Cons.prems(2) nrb] lt by simp
    let ?s2 = "s\<lparr>stdoutListeners := [?l1]\<rparr>"
    have s2: "isBusy ?s2" "stdoutListeners ?s2 = [?l1]"
      using Cons.prems(1) by simp_all
    have wf: "queue_wf ?s2" using Cons.prems(3) by (simp add: queue_wf_def)
    have nr1: "not_reached tok (numTokens ?l1) (lines_of evs)" using nr(2) by simp
    from Cons.IH [OF s2 wf nr1] Data show ?thesis
      by (simp add: od algebra_simps)
  qed
qed

lemma not_reached_snoc_before:
  "not_reached tok n B \<Longrightarrow> not_reached_before tok n (B @ [x])"
  unfolding not_reached_def not_reached_before_def by auto

section \<open>The waiting requests are in order in every state the object reaches\<close>

lemma queue_shrinks_refl [simp]: "queue_shrinks s s"
  by (simp add: queue_shrinks_def)

lemma queue_shrinks_trans: "queue_shrinks s s' \<Longrightarrow> queue_shrinks s' s'' \<Longrightarrow> queue_shrinks s s''"
  by (auto simp: queue_shrinks_def)

lemma queue_shrinks_emit_fold:
  "queue_shrinks s0
     (foldl (\<lambda>s' (requestId, text).
            if requestId = q then extract_ner tok (s'\<lparr>isBusy := True\<rparr>) text requestId else s')
        s0 ws)"
proof (induction ws arbitrary: s0)
  case Nil
  then show ?case by simp
next
  case (Cons p ws)
  obtain i t where p: "p = (i, t)" by (cases p)
  let ?s1 = "if i = q then extract_ner tok (s0\<lparr>isBusy := True\<rparr>) t i else s0"
  have "queue_shrinks s0 ?s1" by (simp add: queue_shrinks_def extract_ner_def)
  from queue_shrinks_trans [OF this Cons.IH [of ?s1]] p show ?case by simp
qed

lemma queue_shrinks_emit: "queue_shrinks s (emit tok s q)"
  unfolding emit_def by (rule queue_shrinks_emit_fold)

lemma queue_shrinks_on_sentence: "queue_shrinks s (snd (on_sentence tok (l, s) x))"
proof -
  let ?d = "s\<lparr>stdoutListeners := [], removals := Suc (removals s), isBusy := False,
              resolved := resolved s @ [(owner l, result l @ [parse x])], queue := tl (queue s)\<rparr>"
  have "set (tl (queue s)) \<subseteq> set (queue s)" by (cases "queue s") auto
  then have "queue_shrinks s ?d" by (simp add: queue_shrinks_def)
  from queue_shrinks_trans [OF this queue_shrinks_emit [of ?d tok "hd (queue s)"]]
  show ?thesis
    by (auto simp: on_sentence_def Let_def queue_shrinks_def)
qed

lemma queue_shrinks_foldl_on_sentence:
  "queue_shrinks s (snd (foldl (on_sentence tok) (l, s) xs))"
proof (induction xs arbitrary: l s)
  case Nil
  then show ?case by simp
next
  case (Cons x xs)
  obtain l1 s1 where st: "on_sentence tok (l, s) x = (l1, s1)" by (cases "on_sentence tok (l, s) x")
  from queue_shrinks_on_sentence [of s tok l x] st have "queue_shrinks s s1" by simp
  from queue_shrinks_trans [OF this Cons.IH [of s1 l1]] st show ?case by simp
qed

lemma queue_shrinks_run_listener: "queue_shrinks s (run_listener tok data r0 s il)"
  using queue_shrinks_foldl_on_sentence [of s tok "snd il" "sentences_of data"]
  by (auto simp: run_listener_def Let_def queue_shrinks_def)

lemma queue_shrinks_foldl_run_listener:
  "queue_shrinks s (foldl (run_listener tok data r0) s ils)"
proof (induction ils arbitrary: s)
  case Nil
  then show ?case by simp
next
  case (Cons il ils)
  from queue_shrinks_trans [OF queue_shrinks_run_listener Cons.IH] show ?case by simp
qed

lemma queue_shrinks_on_data: "queue_shrinks s (on_data tok s data)"
  unfolding on_data_def by (rule queue_shrinks_foldl_run_listener)

lemma queue_wf_shrinks: "queue_wf s \<Longrightarrow> queue_shrinks s s' \<Longrightarrow> queue_wf s'"
  unfolding queue_wf_def queue_shrinks_def by auto

lemma queue_wf_step: "queue_wf s \<Longrightarrow> queue_wf (step tok s ev)"
proof (cases ev)
  case (Submit req)
  assume wf: "queue_wf s"
  show ?thesis
  proof (cases "isBusy s")
    case True
    with wf Submit show ?thesis unfolding queue_wf_def
      by (fastforce simp: getEntities_def Let_def)
  next
    case False
    with wf Submit show ?thesis unfolding queue_wf_def
      by (fastforce simp: getEntities_def Let_def extract_ner_def)
  qed
next
  case (Data data)
  assume "queue_wf s"
  from queue_wf_shrinks [OF this queue_shrinks_on_data] Data show ?thesis by simp
qed

lemma queue_wf_foldl: "queue_wf s \<Longrightarrow> queue_wf (foldl (step tok) s evs)"
  by (induction evs arbitrary: s) (auto simp: queue_wf_step)

lemma queue_wf_run: "queue_wf (run tok evs)"
  unfolding run_def by (rule queue_wf_foldl) (simp add: queue_wf_def ner_init_def)

section \<open>At most one listener, in every state the object reaches\<close>

lemma emit_cases:
  assumes "distinct (map fst (waiters s))"
  shows "emit tok s q = s \<or> (\<exists>t. emit tok s q = extract_ner tok (s\<lparr>isBusy := True\<rparr>) t q)"
proof (cases "q \<in> fst ` set (waiters s)")
  case True
  then obtain t where "(q, t) \<in> set (waiters s)" by auto
  from emit_dispatches [OF assms this] show ?thesis by blast
next
  case False
  then show ?thesis unfolding emit_def by (simp add: emit_fold_absent)
qed

lemma listener_inv_on_sentence:
  assumes "queue_wf s"
  shows "snd (on_sentence tok (l, s) x) = s \<or>
         listener_inv (snd (on_sentence tok (l, s) x)) \<and>
         removals s < removals (snd (on_sentence tok (l, s) x))"
proof (cases "numTokens l - int (getTokenCount tok x True) \<le> 0")
  case False
  then show ?thesis by (simp add: on_sentence_def Let_def)
next
  case True
  let ?done = "s\<lparr>stdoutListeners := [], removals := Suc (removals s), isBusy := False,
                 resolved := resolved s @ [(owner l, result l @ [parse x])]\<rparr>"
  have wfd: "queue_wf ?done" using assms by (simp add: queue_wf_def)
  show ?thesis
  proof (cases "queue s = []")
    case e: True
    with True wfd show ?thesis
      by (simp add: on_sentence_def Let_def listener_inv_def queue_wf_def)
  next
    case ne: False
    let ?d = "?done\<lparr>queue := tl (queue s)\<rparr>"
    have "set (tl (queue s)) \<subseteq> set (queue s)" by (cases "queue s") auto
    with assms have wf: "queue_wf ?d" by (auto simp: queue_wf_def)
    then have d: "distinct (map fst (waiters ?d))" by (simp add: queue_wf_def)
    have sn: "snd (on_sentence tok (l, s) x) = emit tok ?d (hd (queue s))"
      using True ne by (simp add: on_sentence_def Let_def)
    from emit_cases [OF d, of tok "hd (queue s)"]
    have "listener_inv (emit tok ?d (hd (queue s)))"
    proof
      assume "emit tok ?d (hd (queue s)) = ?d"
      with wf show ?thesis by (simp add: listener_inv_def)
    next
      assume "\<exists>t. emit tok ?d (hd (queue s)) = extract_ner tok (?d\<lparr>isBusy := True\<rparr>) t (hd (queue s))"
      then obtain t where "emit tok ?d (hd (queue s)) = extract_ner tok (?d\<lparr>isBusy := True\<rparr>) t (hd (queue s))" ..
      with wf show ?thesis by (simp add: listener_inv_def extract_ner_def queue_wf_def)
    qed
    with sn show ?thesis by simp
  qed
qed

lemma listener_inv_foldl_on_sentence:
  assumes "queue_wf s"
  shows "snd (foldl (on_sentence tok) (l, s) xs) = s \<or>
         listener_inv (snd (foldl (on_sentence tok) (l, s) xs)) \<and>
         removals s < removals (snd (foldl (on_sentence tok) (l, s) xs))"
  using assms
proof (induction xs arbitrary: l s)
  case Nil
  then show ?case by simp
next
  case (Cons x xs)
  obtain l1 s1 where st: "on_sentence tok (l, s) x = (l1, s1)" by (cases "on_sentence tok (l, s) x")
  from listener_inv_on_sentence [OF Cons.prems, of tok l x] st
  have first: "s1 = s \<or> listener_inv s1 \<and> removals s < removals s1" by simp
  then have wf1: "queue_wf s1" using Cons.prems by (auto simp: listener_inv_def)
  from Cons.IH [OF wf1, of l1] first st show ?case by auto
qed

lemma listener_inv_on_data:
  assumes "listener_inv s"
  shows "listener_inv (on_data tok s data)"
proof (cases "stdoutListeners s")
  case Nil
  with assms show ?thesis by (simp add: on_data_def)
next
  case (Cons l ls)
  with assms have lis: "stdoutListeners s = [l]" and busy: "isBusy s" and wf: "queue_wf s"
    by (simp_all add: listener_inv_def)
  let ?r = "foldl (on_sentence tok) (l, s) (sentences_of data)"
  have od: "on_data tok s data =
      (if removals (snd ?r) = removals s
       then (snd ?r)\<lparr>stdoutListeners := (stdoutListeners (snd ?r))[0 := fst ?r]\<rparr> else snd ?r)"
    by (simp add: on_data_def lis run_listener_def Let_def)
  from listener_inv_foldl_on_sentence [OF wf, of tok l "sentences_of data"]
  show ?thesis
  proof
    assume same: "snd ?r = s"
    then show ?thesis using lis busy wf by (simp add: od listener_inv_def queue_wf_def)
  next
    assume "listener_inv (snd ?r) \<and> removals s < removals (snd ?r)"
    then show ?thesis by (simp add: od)
  qed
qed

lemma listener_inv_step: "listener_inv s \<Longrightarrow> listener_inv (step tok s ev)"
proof (cases ev)
  case (Submit req)
  assume inv: "listener_inv s"
  then have wf: "queue_wf (step tok s ev)" by (simp add: listener_inv_def queue_wf_step)
  show ?thesis
  proof (cases "isBusy s")
    case True
    with inv wf Submit show ?thesis by (simp add: listener_inv_def getEntities_def Let_def)
  next
    case False
    with inv have "stdoutListeners s = []" by (auto simp: listener_inv_def)
    with False wf Submit show ?thesis
      by (simp add: listener_inv_def getEntities_def Let_def extract_ner_def)
  qed
next
  case (Data data)
  assume "listener_inv s"
  from listener_inv_on_data [OF this] Data show ?thesis by simp
qed

lemma listener_inv_foldl: "listener_inv s \<Longrightarrow> listener_inv (foldl (step tok) s evs)"
  by (induction evs arbitrary: s) (auto simp: listener_inv_step)

lemma listener_inv_run: "listener_inv (run tok evs)"
  unfolding run_def
  by (rule listener_inv_foldl) (simp add: listener_inv_def queue_wf_def ner_init_def)

lemma getEntities_idle:
  assumes "\<not> isBusy s" "stdoutListeners s = []"
  shows "fst (getEntities tok s text) = nextId s"
    and "isBusy (snd (getEntities tok s text))"
    and "stdoutListeners (snd (getEntities tok s text)) =
           [\<lparr>owner = nextId s, numTokens = int (getTokenCount tok text False), result = []\<rparr>]"
    and "written (snd (getEntities tok s text)) = written s @ [(nextId s, trim text @ [CHR 0x0A])]"
  using assms by (simp_all add: getEntities_def Let_def extract_ner_def)

section \<open>Claims about the parser\<close>

text \<open>
  C6.  The line \<^verbatim>\<open>Barack/PERSON Obama/PERSON visited/O Paris/LOCATION\<close> parses to the map
  with the key \<^verbatim>\<open>PERSON\<close> first, holding the one mention \<^verbatim>\<open>Barack Obama\<close>, and the key
  \<^verbatim>\<open>LOCATION\<close> second, holding \<^verbatim>\<open>Paris\<close>.  The first mention is saved by the token
  \<^verbatim>\<open>visited/O\<close>; the second by the statement after the loop, which stores the buffer
  itself, here a single word.
\<close>

theorem parse_person_location_line:
  "parse ''Barack/PERSON Obama/PERSON visited/O Paris/LOCATION'' =
     [(Some ''PERSON'', [''Barack Obama'']), (Some ''LOCATION'', [''Paris''])]"
  by code_simp

text \<open>
  C1.  The claim is that the buffer left open at the end of the line is saved as inside
  the loop: joined into one mention and appended to the key's list.  The statement after
  the loop is \<^verbatim>\<open>entities.set(prevEntity, entityBuffer)\<close>: it stores the words of the buffer
  one by one, in place of whatever the key held.  Three consecutive \<^verbatim>\<open>ORGANIZATION\<close>
  tokens give three mentions, not the mention \<^verbatim>\<open>New York Fed\<close>; and the mention
  \<^verbatim>\<open>Apple\<close>, saved inside the loop, is gone once \<^verbatim>\<open>Google\<close> ends the line.  With a
  final \<^verbatim>\<open>./O\<close> the same tokens are saved inside the loop, as the claim describes.
\<close>

theorem parse_final_flush_overwrites:
  "parse ''New/ORGANIZATION York/ORGANIZATION Fed/ORGANIZATION'' =
     [(Some ''ORGANIZATION'', [''New'', ''York'', ''Fed''])] \<and>
   parse ''Apple/ORGANIZATION and/O Google/ORGANIZATION'' =
     [(Some ''ORGANIZATION'', [''Google''])] \<and>
   parse ''New/ORGANIZATION York/ORGANIZATION Fed/ORGANIZATION ./O'' =
     [(Some ''ORGANIZATION'', [''New York Fed''])] \<and>
   parse ''Apple/ORGANIZATION and/O Google/ORGANIZATION ./O'' =
     [(Some ''ORGANIZATION'', [''Apple'', ''Google''])]"
  by code_simp

text \<open>
  C10.  Every key of the map that \<^verbatim>\<open>parse\<close> returns is a string (never \<^verbatim>\<open>undefined\<close>),
  is not the sentinel \<^verbatim>\<open>O\<close>, and is the tag of one of the line's tagged tokens.
\<close>

theorem parse_keys_are_entity_tags:
  assumes "k \<in> fst ` set (parse line)"
  shows "\<exists>w t. k = Some t \<and> t \<noteq> ''O'' \<and> (w, t) \<in> set (tagged_tokens line)"
proof -
  let ?toks = "tagged_tokens line"
  let ?s = "foldl parse_step parse_init ?toks"
  have "tag_inv ?toks parse_init" by (simp add: tag_inv_def parse_init_def)
  then have inv: "tag_inv ?toks ?s" by (rule tag_inv_foldl) simp
  show ?thesis
  proof (cases "entityBuffer ?s = []")
    case True
    with assms inv show ?thesis by (auto simp: parse_def tag_inv_def Let_def)
  next
    case False
    with assms have "k = prevEntity ?s \<or> k \<in> fst ` set (entities ?s)"
      by (auto simp: parse_def Let_def keys_map_set)
    with inv False show ?thesis unfolding tag_inv_def by blast
  qed
qed

theorem parse_keys_are_entity_tags_witness:
  "Some ''LOCATION'' \<in> fst ` set (parse ''Paris/LOCATION is/O nice/O'') \<and>
   (\<exists>w t. Some ''LOCATION'' = Some t \<and> t \<noteq> ''O'' \<and>
      (w, t) \<in> set (tagged_tokens ''Paris/LOCATION is/O nice/O''))"
proof -
  have h: "Some ''LOCATION'' \<in> fst ` set (parse ''Paris/LOCATION is/O nice/O'')"
    by code_simp
  from h parse_keys_are_entity_tags [OF h] show ?thesis by simp
qed

text \<open>
  C8.  A token that the pattern \<^verbatim>\<open>(.+)/([A-Z]+)\<close> does not match is dropped and nothing
  is raised (\<^verbatim>\<open>parse\<close> has no failing branch): the line parses to the same map as the
  line without these tokens.
\<close>

theorem parse_discards_unmatched_tokens: "parse line = parse (without_unmatched line)"
  by (simp add: parse_def tagged_tokens_without_unmatched)

text \<open>
  C9.  \<^verbatim>\<open>parse\<close> is run twice on the same line, the second time in the store of
  expression objects that the first run leaves, whatever the store \<open>h\<close> was before.  Both
  runs return the same map: the same keys in the same order of insertion, with equal
  lists of mentions.  No state leaks into a run, since the map is the one that the
  function \<open>parse\<close> of the line alone gives (every token is matched by an object created
  for it, whose \<^verbatim>\<open>lastIndex\<close> is 0); and none leaks out of it, since the objects that
  existed before the run are as they were.
\<close>

theorem parse_same_line_twice:
  "fst (parse_st (snd (parse_st h line)) line) = fst (parse_st h line) \<and>
   fst (parse_st h line) = parse line \<and>
   take (length h) (snd (parse_st h line)) = h"
  using parse_st_fst [of h line] parse_st_fst [of "snd (parse_st h line)" line]
    parse_st_frame [of h line]
  by simp

section \<open>Claims about the token count\<close>

text \<open>
  C7.  The claim is that the tagged-mode count is the number of tokens of the line whose
  unescaped surface is longer than one character.  \<^verbatim>\<open>getTokenCount\<close> takes as the surface
  the text before the first slash of a token (\<^verbatim>\<open>val.split("/")[0]\<close>), where \<^verbatim>\<open>parse\<close>
  takes the first group of the pattern, up to the slash before the tag.  In the line
  \<^verbatim>\<open>see/O 1/2/O\<close> the second token has the surface \<^verbatim>\<open>1/2\<close>, three characters long: the
  count as claimed is 2.  The code measures \<^verbatim>\<open>1\<close> and counts 1.  The text \<^verbatim>\<open>see 1/2\<close>
  has two tokens longer than one character, so its budget is 2: the line leaves the
  request unresolved with 1 still to come.  On the claim's own example the count is 1.
\<close>

theorem tagged_count_cuts_surface_at_first_slash:
  "tagged_tokens ''see/O 1/2/O'' = [(''see'', ''O''), (''1/2'', ''O'')] \<and>
   claimed_tagged_count ''see/O 1/2/O'' = 2 \<and>
   getTokenCount words ''see/O 1/2/O'' True = 1 \<and>
   getTokenCount words ''see 1/2'' False = 2 \<and>
   resolved (run words [Submit ''see 1/2'', Data (''see/O 1/2/O'' @ [CHR 0x0A])]) = [] \<and>
   map numTokens (stdoutListeners
     (run words [Submit ''see 1/2'', Data (''see/O 1/2/O'' @ [CHR 0x0A])])) = [1] \<and>
   claimed_tagged_count ''Spain/LOCATION ./O'' = 1 \<and>
   getTokenCount words ''Spain/LOCATION ./O'' True = 1"
  by code_simp

section \<open>Claims about the sequencer\<close>

text \<open>
  C2.  The claim is that at most one request is written to the worker and not yet
  completed, and that a request submitted meanwhile is queued.  The callback of
  \<^verbatim>\<open>sentences.forEach\<close> runs on for the lines that follow the one that exhausts the
  budget, and completes again at each of them: it removes the listener of the request it
  has just dispatched, clears the flag and dispatches one more.  With three requests
  submitted and the two-line chunk, the second and the third are both in flight.  With two
  requests submitted, the chunk leaves the second in flight and the flag cleared, and a
  third request is written to the worker at once.
\<close>

theorem surplus_line_two_in_flight:
  "in_flight (run words
      [Submit ''Hello world. A'', Submit ''Paris'', Submit ''Rome'', Data two_line_chunk]) = [1, 2] \<and>
   in_flight (run words [Submit ''Hello world. A'', Submit ''Paris'', Data two_line_chunk]) = [1] \<and>
   isBusy (run words [Submit ''Hello world. A'', Submit ''Paris'', Data two_line_chunk]) = False \<and>
   in_flight (run words
      [Submit ''Hello world. A'', Submit ''Paris'', Data two_line_chunk, Submit ''Rome'']) = [1, 2]"
  by code_simp

text \<open>
  C3.  The claim is that the completion step runs once for a request.  On the two-line
  chunk it runs twice for the first request: \<^verbatim>\<open>resolve\<close> is called twice, the listeners
  are removed twice, and the queue, which held two requests, is empty.
\<close>

theorem surplus_line_completes_twice:
  "queue (run words [Submit ''Hello world. A'', Submit ''Paris'', Submit ''Rome'']) = [1, 2] \<and>
   map fst (resolved (run words
      [Submit ''Hello world. A'', Submit ''Paris'', Submit ''Rome'', Data two_line_chunk])) = [0, 0] \<and>
   removals (run words
      [Submit ''Hello world. A'', Submit ''Paris'', Submit ''Rome'', Data two_line_chunk]) = 2 \<and>
   queue (run words
      [Submit ''Hello world. A'', Submit ''Paris'', Submit ''Rome'', Data two_line_chunk]) = []"
  by code_simp

text \<open>
  C4.  The claim is that a request is resolved before the next one is dispatched and that
  output lines go to the requests in the order of submission.  After the two-line chunk
  the third request is written to the worker while the second is unresolved and has lost
  its listener; the worker's line for the second request (\<^verbatim>\<open>Paris\<close>) then resolves the
  third (\<^verbatim>\<open>Rome\<close>), and the second is never resolved.
\<close>

theorem surplus_line_breaks_order:
  "map fst (written (run words
      [Submit ''Hello world. A'', Submit ''Paris'', Submit ''Rome'', Data two_line_chunk])) = [0, 1, 2] \<and>
   map owner (stdoutListeners (run words
      [Submit ''Hello world. A'', Submit ''Paris'', Submit ''Rome'', Data two_line_chunk])) = [2] \<and>
   resolved (run words
      [Submit ''Hello world. A'', Submit ''Paris'', Submit ''Rome'', Data two_line_chunk,
       Data (''Paris/LOCATION'' @ [CHR 0x0A])]) =
     [(0, [[]]), (0, [[], []]), (2, [[(Some ''LOCATION'', [''Paris''])]])]"
  by code_simp

text \<open>
  C5.  The claim is that every request in flight completes when the counts of the lines
  received reach its budget.  After the two-line chunk the request for \<^verbatim>\<open>Paris\<close> is in
  flight, with the budget 1, and its listener has been removed by the second run of the
  completion step.  The worker's line \<^verbatim>\<open>Paris/LOCATION\<close>, whose count is 1, reaches the
  budget; no listener receives it, and the request stays in flight, unresolved.
\<close>

theorem surplus_line_strands_request:
  "written (run words [Submit ''Hello world. A'', Submit ''Paris'', Data two_line_chunk]) =
     [(0, ''Hello world. A'' @ [CHR 0x0A]), (1, ''Paris'' @ [CHR 0x0A])] \<and>
   in_flight (run words [Submit ''Hello world. A'', Submit ''Paris'', Data two_line_chunk]) = [1] \<and>
   stdoutListeners (run words [Submit ''Hello world. A'', Submit ''Paris'', Data two_line_chunk])
     = [] \<and>
   getTokenCount words ''Paris'' False = 1 \<and>
   getTokenCount words ''Paris/LOCATION'' True = 1 \<and>
   sentences_of (''Paris/LOCATION'' @ [CHR 0x0A]) = [''Paris/LOCATION''] \<and>
   map fst (resolved (run words
     [Submit ''Hello world. A'', Submit ''Paris'', Data two_line_chunk,
      Data (''Paris/LOCATION'' @ [CHR 0x0A])])) = [0, 0] \<and>
   in_flight (run words
     [Submit ''Hello world. A'', Submit ''Paris'', Data two_line_chunk,
      Data (''Paris/LOCATION'' @ [CHR 0x0A])]) = [1]"
  by code_simp

section \<open>The request whose listener is registered\<close>

text \<open>
  What the code does for a request that has its listener.  A request \<open>h\<close> has just been
  dispatched for \<open>text\<close>: the flag is set and the one
  listener is the request's, with the budget \<open>N\<close>, the token count of the text, and no
  result yet.  Then events \<open>evs\<close> happen (texts submitted, chunks emitted), and in a last
  chunk the listener comes to the line \<open>x\<close>, after the lines \<open>B\<close> of that chunk; the
  budget is not reached by the lines before \<open>x\<close>.

  (No listener is registered on an idle object, by \<open>listener_inv_run\<close>, so that this is
  the state in which \<^verbatim>\<open>getEntities\<close> leaves it, by \<open>getEntities_idle\<close>; and the condition
  on the waiting requests holds in every state the object reaches, by \<open>queue_wf_run\<close>.)

  Up to the last chunk the request stays as it is: the flag is set, nothing is resolved,
  nothing more is written to the worker, and the listener holds what is left of the
  budget and the parse of every line received, in order.  At the line \<open>x\<close> the request
  completes exactly if the counts of the lines received, \<open>x\<close> included, total \<open>N\<close> or
  more.  If they do not, the object is unchanged.  If they do, the listeners are removed,
  the flag is cleared and \<^verbatim>\<open>resolve\<close> is called with the parses of the lines received, in
  order; and if the queue is not empty its first request is taken off and dispatched
  (which sets the flag again).  When \<open>x\<close> is the last line of the chunk, this is the state
  in which the chunk leaves the object.
\<close>

lemma listener_completes_when_budget_reached:
  assumes busy: "isBusy s"
    and lis: "stdoutListeners s =
               [\<lparr>owner = h, numTokens = int (getTokenCount tok text False), result = []\<rparr>]"
    and wf: "queue_wf s"
    and split: "sentences_of data = B @ x # rest"
    and nr: "not_reached tok (int (getTokenCount tok text False)) (lines_of evs @ B)"
  shows "let N = int (getTokenCount tok text False);
             s' = foldl (step tok) s evs;
             l' = \<lparr>owner = h, numTokens = N - tagged_total tok (lines_of evs),
                   result = map parse (lines_of evs)\<rparr>;
             got = lines_of evs @ B @ [x];
             l'' = \<lparr>owner = h, numTokens = N - tagged_total tok got, result = map parse got\<rparr>;
             done = s'\<lparr>stdoutListeners := [], removals := Suc (removals s'), isBusy := False,
                       resolved := resolved s' @ [(h, map parse got)]\<rparr>
         in isBusy s' \<and> resolved s' = resolved s \<and> written s' = written s \<and>
            stdoutListeners s' = [l'] \<and>
            (\<exists>after.
               foldl (on_sentence tok) (l', s') (B @ [x]) = (l'', after) \<and>
               (if tagged_total tok got < N then after = s'
                else if queue s' = [] then after = done
                else \<exists>t. (hd (queue s'), t) \<in> set (waiters s') \<and>
                       after = extract_ner tok (done\<lparr>queue := tl (queue s'), isBusy := True\<rparr>) t
                                 (hd (queue s'))) \<and>
               (rest = [] \<longrightarrow>
                  step tok s' (Data data) =
                    (if tagged_total tok got < N then s'\<lparr>stdoutListeners := [l'']\<rparr> else after)))"
proof -
  let ?N = "int (getTokenCount tok text False)"
  let ?l = "\<lparr>owner = h, numTokens = ?N, result = []\<rparr>"
  let ?s' = "foldl (step tok) s evs"
  let ?A = "lines_of evs"
  let ?l' = "\<lparr>owner = h, numTokens = ?N - tagged_total tok ?A, result = map parse ?A\<rparr>"
  let ?got = "?A @ B @ [x]"
  let ?l'' = "\<lparr>owner = h, numTokens = ?N - tagged_total tok ?got, result = map parse ?got\<rparr>"
  let ?done = "?s'\<lparr>stdoutListeners := [], removals := Suc (removals ?s'), isBusy := False,
                    resolved := resolved ?s' @ [(h, map parse ?got)]\<rparr>"
  from nr have "not_reached tok (numTokens ?l) (?A @ B)" by simp
  note nrAB = not_reached_append [OF this]
  from events_before_completion [OF busy lis wf nrAB(1)]
  have ev: "isBusy ?s'" "stdoutListeners ?s' = [?l']" "queue_wf ?s'"
    "resolved ?s' = resolved s" "written ?s' = written s"
    by simp_all
  from nrAB(2) have nrB: "not_reached tok (numTokens ?l') B" by simp
  let ?lB = "\<lparr>owner = h, numTokens = ?N - tagged_total tok (?A @ B), result = map parse (?A @ B)\<rparr>"
  have foldB: "foldl (on_sentence tok) (?l', ?s') (B @ [x]) = on_sentence tok (?lB, ?s') x"
    by (simp add: foldl_on_sentence_continue [OF nrB] algebra_simps)
  have tot: "tagged_total tok ?got = tagged_total tok (?A @ B) + int (getTokenCount tok x True)"
    by simp
  have next_one: "\<exists>t. (hd (queue ?s'), t) \<in> set (waiters ?s') \<and>
      emit tok (?done\<lparr>queue := tl (queue ?s')\<rparr>) (hd (queue ?s')) =
        extract_ner tok (?done\<lparr>queue := tl (queue ?s'), isBusy := True\<rparr>) t (hd (queue ?s'))"
    if ne: "queue ?s' \<noteq> []"
  proof -
    from ne have "hd (queue ?s') \<in> set (queue ?s')" by simp
    with ev(3) obtain t where t: "(hd (queue ?s'), t) \<in> set (waiters ?s')"
      unfolding queue_wf_def by auto
    from ev(3) have d: "distinct (map fst (waiters (?done\<lparr>queue := tl (queue ?s')\<rparr>)))"
      by (simp add: queue_wf_def)
    from t have t': "(hd (queue ?s'), t) \<in> set (waiters (?done\<lparr>queue := tl (queue ?s')\<rparr>))"
      by simp
    from emit_dispatches [OF d t'] t show ?thesis by auto
  qed
  have od: "step tok ?s' (Data data) =
      (if tagged_total tok ?got < ?N then ?s'\<lparr>stdoutListeners := [?l'']\<rparr>
       else snd (on_sentence tok (?lB, ?s') x))" if r: "rest = []"
  proof -
    from split r have sd: "sentences_of data = B @ [x]" by simp
    from nrB have "not_reached_before tok (numTokens ?l') (sentences_of data)"
      unfolding sd by (rule not_reached_snoc_before)
    note single = on_data_single [OF ev(2) this]
    show ?thesis
    proof (cases "tagged_total tok ?got < ?N")
      case True
      with single show ?thesis by (simp add: sd algebra_simps)
    next
      case False
      then have "numTokens ?lB \<le> int (getTokenCount tok x True)" by simp
      from on_sentence_complete [OF this, of ?s'] single False show ?thesis
        by (simp add: sd Let_def algebra_simps)
    qed
  qed
  have l_eq: "?lB\<lparr>numTokens := numTokens ?lB - int (getTokenCount tok x True),
                  result := result ?lB @ [parse x]\<rparr> = ?l''"
    by simp
  have concl: ?thesis
    if fold_eq: "foldl (on_sentence tok) (?l', ?s') (B @ [x]) = (?l'', after)"
      and cond: "if tagged_total tok ?got < ?N then after = ?s'
            else if queue ?s' = [] then after = ?done
            else \<exists>t. (hd (queue ?s'), t) \<in> set (waiters ?s') \<and>
              after = extract_ner tok (?done\<lparr>queue := tl (queue ?s'), isBusy := True\<rparr>) t (hd (queue ?s'))"
      and last: "rest = [] \<longrightarrow> step tok ?s' (Data data) =
          (if tagged_total tok ?got < ?N then ?s'\<lparr>stdoutListeners := [?l'']\<rparr> else after)"
    for after
    unfolding Let_def using ev(1,4,5,2) fold_eq cond last by blast
  show ?thesis
  proof (cases "tagged_total tok ?got < ?N")
    case True
    then have "int (getTokenCount tok x True) < numTokens ?lB" by simp
    from on_sentence_continue [OF this, of ?s']
    have pair: "on_sentence tok (?lB, ?s') x = (?l'', ?s')" unfolding l_eq .
    show ?thesis
    proof (rule concl [of ?s'])
      show "foldl (on_sentence tok) (?l', ?s') (B @ [x]) = (?l'', ?s')"
        unfolding foldB pair ..
      show "if tagged_total tok ?got < ?N then ?s' = ?s'
            else if queue ?s' = [] then ?s' = ?done
            else \<exists>t. (hd (queue ?s'), t) \<in> set (waiters ?s') \<and>
              ?s' = extract_ner tok (?done\<lparr>queue := tl (queue ?s'), isBusy := True\<rparr>) t (hd (queue ?s'))"
        using True by simp
      show "rest = [] \<longrightarrow> step tok ?s' (Data data) =
          (if tagged_total tok ?got < ?N then ?s'\<lparr>stdoutListeners := [?l'']\<rparr> else ?s')"
        using od True by simp
    qed
  next
    case False
    then have "numTokens ?lB \<le> int (getTokenCount tok x True)" by simp
    note oc = on_sentence_complete [OF this, of ?s', unfolded l_eq]
    have res_eq: "result ?lB @ [parse x] = map parse ?got" by simp
    show ?thesis
    proof (cases "queue ?s' = []")
      case True
      have pair: "on_sentence tok (?lB, ?s') x = (?l'', ?done)"
        unfolding oc using True by (simp add: Let_def)
      show ?thesis
      proof (rule concl [of ?done])
        show "foldl (on_sentence tok) (?l', ?s') (B @ [x]) = (?l'', ?done)"
          unfolding foldB pair ..
        show "if tagged_total tok ?got < ?N then ?done = ?s'
            else if queue ?s' = [] then ?done = ?done
            else \<exists>t. (hd (queue ?s'), t) \<in> set (waiters ?s') \<and>
              ?done = extract_ner tok (?done\<lparr>queue := tl (queue ?s'), isBusy := True\<rparr>) t (hd (queue ?s'))"
          using False True by simp
        show "rest = [] \<longrightarrow> step tok ?s' (Data data) =
          (if tagged_total tok ?got < ?N then ?s'\<lparr>stdoutListeners := [?l'']\<rparr> else ?done)"
          using od False pair by simp
      qed
    next
      case ne: False
      from next_one [OF ne] obtain t where
        t: "(hd (queue ?s'), t) \<in> set (waiters ?s')"
        and em: "emit tok (?done\<lparr>queue := tl (queue ?s')\<rparr>) (hd (queue ?s')) =
          extract_ner tok (?done\<lparr>queue := tl (queue ?s'), isBusy := True\<rparr>) t (hd (queue ?s'))"
        by blast
      let ?next = "extract_ner tok (?done\<lparr>queue := tl (queue ?s'), isBusy := True\<rparr>) t (hd (queue ?s'))"
      have pair: "on_sentence tok (?lB, ?s') x = (?l'', ?next)"
        unfolding oc using ne em by (simp add: Let_def)
      show ?thesis
      proof (rule concl [of ?next])
        show "foldl (on_sentence tok) (?l', ?s') (B @ [x]) = (?l'', ?next)"
          unfolding foldB pair ..
        show "if tagged_total tok ?got < ?N then ?next = ?s'
            else if queue ?s' = [] then ?next = ?done
            else \<exists>t. (hd (queue ?s'), t) \<in> set (waiters ?s') \<and>
              ?next = extract_ner tok (?done\<lparr>queue := tl (queue ?s'), isBusy := True\<rparr>) t (hd (queue ?s'))"
          using False ne t by auto
        show "rest = [] \<longrightarrow> step tok ?s' (Data data) =
          (if tagged_total tok ?got < ?N then ?s'\<lparr>stdoutListeners := [?l'']\<rparr> else ?next)"
          using od False pair by simp
      qed
    qed
  qed
qed



lemma witness_busy: "isBusy (run words [Submit ''Hello world''])"
  by code_simp

lemma witness_listener:
  "stdoutListeners (run words [Submit ''Hello world'']) =
     [\<lparr>owner = 0, numTokens = int (getTokenCount words ''Hello world'' False), result = []\<rparr>]"
  by code_simp

lemma witness_queue_wf: "queue_wf (run words [Submit ''Hello world''])"
  by code_simp

lemma witness_chunk: "sentences_of (''world/O'' @ [CHR 0x0A]) = [] @ ''world/O'' # []"
  by code_simp

lemma witness_not_reached:
  "not_reached words (int (getTokenCount words ''Hello world'' False))
     (lines_of [Submit ''Paris'', Data (''Hello/O'' @ [CHR 0x0A])] @ [])"
proof -
  have L: "lines_of [Submit ''Paris'', Data (''Hello/O'' @ [CHR 0x0A])] @ [] = [''Hello/O'']"
    by code_simp
  have c: "tagged_total words [''Hello/O''] < int (getTokenCount words ''Hello world'' False)"
    by code_simp
  show ?thesis unfolding L not_reached_def using c by simp
qed

lemma witness_resolved:
  "resolved (step words
      (foldl (step words) (run words [Submit ''Hello world''])
         [Submit ''Paris'', Data (''Hello/O'' @ [CHR 0x0A])])
      (Data (''world/O'' @ [CHR 0x0A]))) = [(0, [[], []])]"
  by code_simp

text \<open>
  The text \<^verbatim>\<open>Hello world\<close> is dispatched, \<^verbatim>\<open>Paris\<close> is submitted and waits, and the
  worker answers in two chunks of one line: the second reaches the budget of 2.
\<close>

lemma listener_completes_when_budget_reached_example:
  "isBusy (run words [Submit ''Hello world'']) \<and>
   stdoutListeners (run words [Submit ''Hello world'']) =
     [\<lparr>owner = 0, numTokens = int (getTokenCount words ''Hello world'' False), result = []\<rparr>] \<and>
   queue_wf (run words [Submit ''Hello world'']) \<and>
   sentences_of (''world/O'' @ [CHR 0x0A]) = [] @ ''world/O'' # [] \<and>
   not_reached words (int (getTokenCount words ''Hello world'' False))
     (lines_of [Submit ''Paris'', Data (''Hello/O'' @ [CHR 0x0A])] @ []) \<and>
   resolved (step words
      (foldl (step words) (run words [Submit ''Hello world''])
         [Submit ''Paris'', Data (''Hello/O'' @ [CHR 0x0A])])
      (Data (''world/O'' @ [CHR 0x0A]))) = [(0, [[], []])] \<and>
   (let N = int (getTokenCount words ''Hello world'' False);
        s' = foldl (step words) (run words [Submit ''Hello world''])
               [Submit ''Paris'', Data (''Hello/O'' @ [CHR 0x0A])];
        l' = \<lparr>owner = 0,
               numTokens = N - tagged_total words
                 (lines_of [Submit ''Paris'', Data (''Hello/O'' @ [CHR 0x0A])]),
               result = map parse (lines_of [Submit ''Paris'', Data (''Hello/O'' @ [CHR 0x0A])])\<rparr>;
        got = lines_of [Submit ''Paris'', Data (''Hello/O'' @ [CHR 0x0A])] @ [] @ [''world/O''];
        l'' = \<lparr>owner = 0, numTokens = N - tagged_total words got, result = map parse got\<rparr>;
        done = s'\<lparr>stdoutListeners := [], removals := Suc (removals s'), isBusy := False,
                  resolved := resolved s' @ [(0, map parse got)]\<rparr>
    in isBusy s' \<and> resolved s' = resolved (run words [Submit ''Hello world'']) \<and>
       written s' = written (run words [Submit ''Hello world'']) \<and>
       stdoutListeners s' = [l'] \<and>
       (\<exists>after.
          foldl (on_sentence words) (l', s') ([] @ [''world/O'']) = (l'', after) \<and>
          (if tagged_total words got < N then after = s'
           else if queue s' = [] then after = done
           else \<exists>t. (hd (queue s'), t) \<in> set (waiters s') \<and>
                  after = extract_ner words (done\<lparr>queue := tl (queue s'), isBusy := True\<rparr>) t
                            (hd (queue s'))) \<and>
          (([]::string list) = [] \<longrightarrow>
             step words s' (Data (''world/O'' @ [CHR 0x0A])) =
               (if tagged_total words got < N then s'\<lparr>stdoutListeners := [l'']\<rparr> else after))))"
  by (intro conjI witness_busy witness_listener witness_queue_wf witness_chunk
      witness_not_reached witness_resolved
      listener_completes_when_budget_reached
        [OF witness_busy witness_listener witness_queue_wf witness_chunk witness_not_reached])

end
